theory Spec2Isabelle
  imports Complex_Main "HOL-Library.Sublist" "HOL-Library.Multiset"
begin

section \<open>The OCR service (src/lib/ocrService.ts)\<close>

text \<open>
  The module keeps one variable, \<open>ocrPipeline\<close>, initially \<open>null\<close>. The model adds three
  ghost fields that only observe what the code does: how often \<open>pipeline(...)\<close> was called,
  which of these calls are still awaited by a suspended \<open>initializeOCR\<close>, and how many
  pipelines were built (promises of \<open>pipeline(...)\<close> that resolved). A pipeline object is
  named by the number of the \<open>pipeline(...)\<close> call that built it.
\<close>

record ocr_module =
  ocrPipeline :: "nat option"
  pipeline_calls :: nat
  awaiting :: "nat list"
  created :: nat

definition module_init :: ocr_module where
  "module_init = \<lparr>ocrPipeline = None, pipeline_calls = 0, awaiting = [], created = 0\<rparr>"

text \<open>
  \<open>initializeOCR\<close> up to its \<open>await\<close>: the test \<open>!ocrPipeline\<close> and, when it holds, the call
  of \<open>pipeline(...)\<close>, whose promise the function then awaits.
\<close>

definition initializeOCR_begin :: "ocr_module \<Rightarrow> ocr_module" where
  "initializeOCR_begin m =
     (if ocrPipeline m = None
      then m\<lparr>pipeline_calls := Suc (pipeline_calls m),
             awaiting := awaiting m @ [Suc (pipeline_calls m)]\<rparr>
      else m)"

text \<open>
  The continuation after the \<open>await\<close>: when the promise of call \<open>k\<close> resolves, the
  assignment \<open>ocrPipeline = ...\<close> runs; when it rejects, \<open>initializeOCR\<close> throws and the
  variable keeps its value.
\<close>

definition initializeOCR_resume :: "nat \<Rightarrow> bool \<Rightarrow> ocr_module \<Rightarrow> ocr_module" where
  "initializeOCR_resume k ok m =
     (if ok
      then m\<lparr>ocrPipeline := Some k, awaiting := removeAll k (awaiting m),
             created := Suc (created m)\<rparr>
      else m\<lparr>awaiting := removeAll k (awaiting m)\<rparr>)"

text \<open>
  What the single-threaded event loop can do to the module: a caller enters
  \<open>initializeOCR\<close>, a caller enters \<open>extractTextFromImage\<close> (which tests \<open>!ocrPipeline\<close>
  itself before it calls \<open>initializeOCR\<close>), or the promise of an awaited \<open>pipeline(...)\<close>
  call settles.
\<close>

datatype event = Call_initializeOCR | Call_extractTextFromImage | Settle nat bool

fun step :: "event \<Rightarrow> ocr_module \<Rightarrow> ocr_module" where
  "step Call_initializeOCR m = initializeOCR_begin m"
| "step Call_extractTextFromImage m =
     (if ocrPipeline m = None then initializeOCR_begin m else m)"
| "step (Settle k ok) m =
     (if k \<in> set (awaiting m) then initializeOCR_resume k ok m else m)"

fun exec :: "event list \<Rightarrow> ocr_module \<Rightarrow> ocr_module" where
  "exec [] m = m"
| "exec (e # es) m = exec es (step e m)"

fun is_call :: "event \<Rightarrow> bool" where
  "is_call (Settle k ok) = False"
| "is_call e = True"

text \<open>A trace in which no call starts while an initialization is still awaited.\<close>

fun non_overlapping :: "event list \<Rightarrow> ocr_module \<Rightarrow> bool" where
  "non_overlapping [] m = True"
| "non_overlapping (e # es) m =
     ((if is_call e then awaiting m = [] else True) \<and> non_overlapping es (step e m))"

text \<open>
  A call of \<open>initializeOCR\<close> that nothing overlaps: it runs to its \<open>await\<close> and its own
  promise settles with outcome \<open>ok\<close>. \<open>Inl\<close> is the thrown error.
\<close>

datatype error = Pipeline_failed | Image_load_failed | Failed_to_extract_text

definition initializeOCR :: "bool \<Rightarrow> ocr_module \<Rightarrow> (error + unit) \<times> ocr_module" where
  "initializeOCR ok m =
     (if ocrPipeline m = None
      then (let m1 = initializeOCR_begin m;
                m2 = initializeOCR_resume (pipeline_calls m1) ok m1
            in (if ok then Inr () else Inl Pipeline_failed, m2))
      else (Inr (), m))"

record OCRResult =
  ocr_text :: string
  confidence :: real

text \<open>
  What one call of \<open>extractTextFromImage\<close> meets outside the module: whether
  \<open>pipeline(...)\<close> would succeed if the call has to initialize, whether the canvas gives a
  2d context, and what the engine does with the encoded image: it throws, or returns an
  object whose \<open>generated_text\<close> may be missing. Drawing on the canvas and the JPEG encoding
  have no effect that the module or the result can see.
\<close>

datatype engine_outcome = Engine_throws | Engine_returns "string option"

record call_env =
  pipeline_ok :: bool
  ctx_ok :: bool
  engine :: engine_outcome

text \<open>JavaScript's \<open>a || b\<close> on strings that may be missing: the empty string is falsy.\<close>

fun truthy :: "string option \<Rightarrow> bool" where
  "truthy None = False"
| "truthy (Some s) = (s \<noteq> [])"

definition or_else :: "string option \<Rightarrow> string \<Rightarrow> string" where
  "or_else a b = (case a of None \<Rightarrow> b | Some s \<Rightarrow> if s = [] then b else s)"

definition extractTextFromImage :: "call_env \<Rightarrow> ocr_module \<Rightarrow> (error + OCRResult) \<times> ocr_module" where
  "extractTextFromImage e m =
     (let (r0, m1) = (if ocrPipeline m = None then initializeOCR (pipeline_ok e) m
                      else (Inr (), m))
      in case r0 of
           Inl err \<Rightarrow> (Inl Failed_to_extract_text, m1)
         | Inr u \<Rightarrow>
             if \<not> ctx_ok e then (Inl Failed_to_extract_text, m1)
             else (case engine e of
                     Engine_throws \<Rightarrow> (Inl Failed_to_extract_text, m1)
                   | Engine_returns generated_text \<Rightarrow>
                       (Inr \<lparr>ocr_text = or_else generated_text [], confidence = 0.8\<rparr>, m1)))"

section \<open>The data model (src/components/ImageUpload.tsx)\<close>

text \<open>
  A browser \<open>File\<close> is seen through its name, its declared media type and its byte size.
  A \<open>char\<close> stands for one UTF-16 code unit of a JavaScript string.
\<close>

record File =
  file_name :: string
  file_type :: string
  file_size :: nat

datatype Status = Pending | Processing | Completed | Error

record UploadedFile =
  uf_id :: string
  uf_file :: File
  preview :: string
  status :: Status
  extractedText :: "string option"

datatype toast = Toast_error string | Toast_success string | Toast_info string

fun is_error_toast :: "toast \<Rightarrow> bool" where
  "is_error_toast (Toast_error msg) = True"
| "is_error_toast t = False"

text \<open>
  The state of the page: the React state of \<open>DocumentConverter\<close> and \<open>ImageUpload\<close>, the
  module state of the OCR service, the toasts shown so far and, as a ghost field, the queue
  records whose image was handed to \<open>extractTextFromImage\<close> so far.
\<close>

record app_state =
  files :: "UploadedFile list"
  isProcessing :: bool
  processingProgress :: real
  ocrInitialized :: bool
  uploadProgress :: real
  ocr :: ocr_module
  toasts :: "toast list"
  recognized :: "UploadedFile list"

text \<open>Decimal rendering of a number inside a template literal.\<close>

definition digit_char :: "nat \<Rightarrow> char" where
  "digit_char d = ''0123456789'' ! (d mod 10)"

fun string_of_nat :: "nat \<Rightarrow> string" where
  "string_of_nat n =
     (if n < 10 then [digit_char n]
      else string_of_nat (n div 10) @ [digit_char (n mod 10)])"

declare string_of_nat.simps [simp del]

section \<open>Image intake (\<open>onDrop\<close> in src/components/ImageUpload.tsx)\<close>

text \<open>
  The callback of \<open>acceptedFiles.filter\<close>: whether the file is kept, and the toast shown
  when it is not.
\<close>

definition check_file :: "File \<Rightarrow> bool \<times> toast list" where
  "check_file file =
     (if \<not> prefix ''image/'' (file_type file)
      then (False, [Toast_error (file_name file @ '' is not a valid image file'')])
      else if file_size file > 10 * 1024 * 1024
      then (False, [Toast_error (file_name file @ '' is too large (max 10MB)'')])
      else (True, []))"

text \<open>
  One call of \<open>onDrop\<close> is a batch: its \<open>validFiles\<close>, the records pushed to
  \<open>uploadedFiles\<close> so far and, as a ghost field, the indices whose reader has fired.
\<close>

record batch =
  validFiles :: "File list"
  uploadedFiles :: "UploadedFile list"
  loaded :: "nat list"

definition handleFilesAdded :: "UploadedFile list \<Rightarrow> app_state \<Rightarrow> app_state" where
  "handleFilesAdded newFiles s = s\<lparr>files := files s @ newFiles\<rparr>"

definition handleFileRemove :: "string \<Rightarrow> app_state \<Rightarrow> app_state" where
  "handleFileRemove ident s = s\<lparr>files := filter (\<lambda>file. uf_id file \<noteq> ident) (files s)\<rparr>"

text \<open>
  The synchronous part of \<open>onDrop\<close>: filtering with its toasts, the early return on an empty
  \<open>validFiles\<close>, and the start of one \<open>FileReader\<close> per valid file.
\<close>

definition onDrop_begin :: "File list \<Rightarrow> app_state \<Rightarrow> batch option \<times> app_state" where
  "onDrop_begin acceptedFiles s =
     (let valid = filter (\<lambda>file. fst (check_file file)) acceptedFiles;
          s1 = s\<lparr>toasts := toasts s @ concat (map (\<lambda>file. snd (check_file file)) acceptedFiles)\<rparr>
      in if length valid = 0 then (None, s1)
         else (Some \<lparr>validFiles = valid, uploadedFiles = [], loaded = []\<rparr>,
               s1\<lparr>uploadProgress := 0\<rparr>))"

text \<open>
  A load event \<open>(index, now, result)\<close>: the reader of \<open>validFiles[index]\<close> fires \<open>onload\<close>
  while \<open>Date.now()\<close> reads \<open>now\<close>, with the data URL \<open>result\<close>. A reader fires at most
  once, and only readers that were started fire; a reader whose read fails never fires
  (the code sets no \<open>onerror\<close>).
\<close>

type_synonym load_event = "nat \<times> nat \<times> string"

definition onload :: "load_event \<Rightarrow> batch \<times> app_state \<Rightarrow> batch \<times> app_state" where
  "onload ev bs =
     (case ev of (index, now, result) \<Rightarrow>
      case bs of (b, s) \<Rightarrow>
        if index < length (validFiles b) \<and> index \<notin> set (loaded b)
        then (let uploadedFile =
                    \<lparr>uf_id = string_of_nat now @ ''-'' @ string_of_nat index,
                     uf_file = validFiles b ! index,
                     preview = result,
                     status = Pending,
                     extractedText = None\<rparr>;
                  b1 = b\<lparr>uploadedFiles := uploadedFiles b @ [uploadedFile],
                         loaded := loaded b @ [index]\<rparr>;
                  s1 = s\<lparr>uploadProgress :=
                           real (index + 1) / real (length (validFiles b)) * 100\<rparr>
              in if length (uploadedFiles b1) = length (validFiles b)
                 then (b1, (handleFilesAdded (uploadedFiles b1) s1)
                             \<lparr>uploadProgress := 0,
                              toasts := toasts s1 @
                                [Toast_success (string_of_nat (length (validFiles b)) @
                                   '' image(s) uploaded successfully!'')]\<rparr>)
                 else (b1, s1))
        else (b, s))"

fun onloads :: "load_event list \<Rightarrow> batch \<times> app_state \<Rightarrow> batch \<times> app_state" where
  "onloads [] bs = bs"
| "onloads (ev # evs) bs = onloads evs (onload ev bs)"

text \<open>A whole batch: \<open>onDrop\<close> and then the load events of its readers, in firing order.\<close>

definition onDrop :: "File list \<Rightarrow> load_event list \<Rightarrow> app_state \<Rightarrow> app_state" where
  "onDrop acceptedFiles evs s =
     (case onDrop_begin acceptedFiles s of
        (None, s1) \<Rightarrow> s1
      | (Some b, s1) \<Rightarrow> snd (onloads evs (b, s1)))"

section \<open>The processing orchestrator (\<open>processImages\<close> in DocumentConverter)\<close>

text \<open>
  What a run meets outside the page: whether \<open>pipeline(...)\<close> succeeds if the run has to
  initialize, and for the \<open>i\<close>-th targeted file whether \<open>loadImage\<close> resolves and what the
  call of \<open>extractTextFromImage\<close> meets.
\<close>

record run_env =
  init_ok :: bool
  load_ok :: "nat \<Rightarrow> bool"
  call :: "nat \<Rightarrow> call_env"

definition set_status :: "string \<Rightarrow> Status \<Rightarrow> UploadedFile list \<Rightarrow> UploadedFile list" where
  "set_status ident st fs = map (\<lambda>f. if uf_id f = ident then f\<lparr>status := st\<rparr> else f) fs"

definition set_completed :: "string \<Rightarrow> string \<Rightarrow> UploadedFile list \<Rightarrow> UploadedFile list" where
  "set_completed ident txt fs =
     map (\<lambda>f. if uf_id f = ident then f\<lparr>status := Completed, extractedText := Some txt\<rparr> else f) fs"

text \<open>The awaited calls in the inner \<open>try\<close>: \<open>loadImage\<close>, then \<open>extractTextFromImage\<close>.\<close>

definition load_and_extract ::
  "run_env \<Rightarrow> nat \<Rightarrow> UploadedFile \<Rightarrow> app_state \<Rightarrow> (error + OCRResult) \<times> app_state" where
  "load_and_extract env i file s =
     (if load_ok env i
      then (case extractTextFromImage (call env i) (ocr s) of
              (r, m) \<Rightarrow> (r, s\<lparr>ocr := m, recognized := recognized s @ [file]\<rparr>))
      else (Inl Image_load_failed, s))"

text \<open>The body of the \<open>for\<close> loop, for the \<open>i\<close>-th of \<open>n\<close> targeted files.\<close>

definition process_file :: "run_env \<Rightarrow> nat \<Rightarrow> nat \<Rightarrow> UploadedFile \<Rightarrow> app_state \<Rightarrow> app_state" where
  "process_file env n i file s =
     (let s1 = s\<lparr>files := set_status (uf_id file) Processing (files s)\<rparr>;
          s3 = (case load_and_extract env i file s1 of
                  (Inr result, s2) \<Rightarrow>
                    s2\<lparr>files := set_completed (uf_id file) (ocr_text result) (files s2),
                       toasts := toasts s2 @
                         [Toast_success (''Extracted text from '' @ file_name (uf_file file))]\<rparr>
                | (Inl err, s2) \<Rightarrow>
                    s2\<lparr>files := set_status (uf_id file) Error (files s2),
                       toasts := toasts s2 @
                         [Toast_error (''Failed to process '' @ file_name (uf_file file))]\<rparr>)
      in s3\<lparr>processingProgress := real (i + 1) / real n * 100\<rparr>)"

fun process_loop :: "run_env \<Rightarrow> nat \<Rightarrow> nat \<Rightarrow> UploadedFile list \<Rightarrow> app_state \<Rightarrow> app_state" where
  "process_loop env n i [] s = s"
| "process_loop env n i (file # rest) s =
     process_loop env n (Suc i) rest (process_file env n i file s)"

definition pendingFiles :: "app_state \<Rightarrow> UploadedFile list" where
  "pendingFiles s = filter (\<lambda>file. status file = Pending) (files s)"

text \<open>The \<open>finally\<close> block.\<close>

definition finally_block :: "app_state \<Rightarrow> app_state" where
  "finally_block s = s\<lparr>isProcessing := False, processingProgress := 0\<rparr>"

text \<open>
  The start of the outer \<open>try\<close>: the engine is initialized unless \<open>ocrInitialized\<close> is
  set. \<open>Inl\<close> is the state in which \<open>initializeOCR\<close> threw, \<open>Inr\<close> the state in which the
  run goes on.
\<close>

definition initialize_run :: "run_env \<Rightarrow> app_state \<Rightarrow> app_state + app_state" where
  "initialize_run env s =
     (if \<not> ocrInitialized s
      then (let s2 = s\<lparr>toasts := toasts s @ [Toast_info ''Initializing OCR engine...'']\<rparr>
            in case initializeOCR (init_ok env) (ocr s2) of
                 (Inl err, m) \<Rightarrow> Inl (s2\<lparr>ocr := m\<rparr>)
               | (Inr u, m) \<Rightarrow> Inr (s2\<lparr>ocr := m, ocrInitialized := True\<rparr>))
      else Inr s)"

definition processImages :: "run_env \<Rightarrow> app_state \<Rightarrow> app_state" where
  "processImages env s =
     (if length (files s) = 0
      then s\<lparr>toasts := toasts s @ [Toast_error ''Please upload some images first'']\<rparr>
      else
        case initialize_run env (s\<lparr>isProcessing := True, processingProgress := 0\<rparr>) of
          Inl s2 \<Rightarrow>
            finally_block (s2\<lparr>toasts := toasts s2 @ [Toast_error ''Failed to process images'']\<rparr>)
        | Inr s2 \<Rightarrow>
            if length (pendingFiles s) = 0
            then finally_block
                   (s2\<lparr>toasts := toasts s2 @
                         [Toast_info ''All images have already been processed''],
                       isProcessing := False\<rparr>)
            else (let s3 = process_loop env (length (pendingFiles s)) 0 (pendingFiles s) s2
                  in finally_block
                       (s3\<lparr>toasts := toasts s3 @
                             [Toast_success ''All images processed successfully!'']\<rparr>)))"

text \<open>
  The ways in which the recognition of the \<open>i\<close>-th targeted file fails once the engine is
  initialized: \<open>loadImage\<close> rejects, the canvas gives no context, or the engine throws.
  Otherwise the engine returns, and \<open>recognized_text\<close> is the text of the result.
\<close>

definition recognition_fails :: "run_env \<Rightarrow> nat \<Rightarrow> bool" where
  "recognition_fails env i \<longleftrightarrow>
     \<not> load_ok env i \<or> \<not> ctx_ok (call env i) \<or> engine (call env i) = Engine_throws"

definition recognized_text :: "run_env \<Rightarrow> nat \<Rightarrow> string" where
  "recognized_text env i =
     (case engine (call env i) of
        Engine_throws \<Rightarrow> []
      | Engine_returns generated_text \<Rightarrow> or_else generated_text [])"

text \<open>What the iteration for the \<open>i\<close>-th targeted file leaves in a record that it updates.\<close>

definition outcome_update :: "run_env \<Rightarrow> nat \<Rightarrow> UploadedFile \<Rightarrow> UploadedFile" where
  "outcome_update env i f =
     (if recognition_fails env i then f\<lparr>status := Error\<rparr>
      else f\<lparr>status := Completed, extractedText := Some (recognized_text env i)\<rparr>)"

definition outcome_toast :: "run_env \<Rightarrow> UploadedFile \<Rightarrow> nat \<Rightarrow> toast" where
  "outcome_toast env file i =
     (if recognition_fails env i
      then Toast_error (''Failed to process '' @ file_name (uf_file file))
      else Toast_success (''Extracted text from '' @ file_name (uf_file file)))"

text \<open>The updates of all iterations from \<open>i\<close> on, as they reach one record.\<close>

fun apply_results :: "run_env \<Rightarrow> nat \<Rightarrow> UploadedFile list \<Rightarrow> UploadedFile \<Rightarrow> UploadedFile" where
  "apply_results env i [] f = f"
| "apply_results env i (file # rest) f =
     apply_results env (Suc i) rest (if uf_id f = uf_id file then outcome_update env i f else f)"

section \<open>The document assembler (DocumentPreview)\<close>

record DocumentSection =
  section_title :: "string option"
  content :: string
  imageUrl :: "string option"

record DocumentOptions =
  title :: "string option"
  author :: "string option"
  subject :: "string option"
  sections :: "DocumentSection list"

record preview_state =
  documentTitle :: string
  author_input :: string
  isEditing :: bool
  editedSections :: "string \<rightharpoonup> string"

definition completedFiles :: "UploadedFile list \<Rightarrow> UploadedFile list" where
  "completedFiles fs = filter (\<lambda>file. status file = Completed \<and> truthy (extractedText file)) fs"

definition handleSectionEdit :: "string \<Rightarrow> string \<Rightarrow> preview_state \<Rightarrow> preview_state" where
  "handleSectionEdit fileId newText p = p\<lparr>editedSections := (editedSections p)(fileId \<mapsto> newText)\<rparr>"

definition getSectionContent :: "preview_state \<Rightarrow> UploadedFile \<Rightarrow> string" where
  "getSectionContent p file =
     or_else (editedSections p (uf_id file)) (or_else (extractedText file) [])"

text \<open>\<open>Array.prototype.map\<close> with the index passed to the callback.\<close>

fun map_index :: "('a \<Rightarrow> nat \<Rightarrow> 'b) \<Rightarrow> nat \<Rightarrow> 'a list \<Rightarrow> 'b list" where
  "map_index f i [] = []"
| "map_index f i (x # xs) = f x i # map_index f (Suc i) xs"

definition make_section :: "preview_state \<Rightarrow> UploadedFile \<Rightarrow> nat \<Rightarrow> DocumentSection" where
  "make_section p file index =
     \<lparr>section_title =
        Some (''Section '' @ string_of_nat (index + 1) @ '' - '' @ file_name (uf_file file)),
      content = getSectionContent p file,
      imageUrl = None\<rparr>"

text \<open>
  The \<open>DocumentOptions\<close> that \<open>exportToPDF\<close> and \<open>exportToText\<close> both build and hand to
  their renderer.
\<close>

definition export_options :: "preview_state \<Rightarrow> UploadedFile list \<Rightarrow> DocumentOptions" where
  "export_options p fs =
     \<lparr>title = Some (documentTitle p),
      author = (if author_input p = [] then None else Some (author_input p)),
      subject = Some ''Document extracted from images using OCR'',
      sections = map_index (make_section p) 0 (completedFiles fs)\<rparr>"

section \<open>The exporter: file names (\<open>generatePDF\<close>, \<open>generateTextFile\<close>)\<close>







section \<open>Invariants used in the proofs\<close>

text \<open>
  The invariant of non-overlapping traces: at most one initialization is awaited, and
  only while the variable is still empty; a pipeline was built iff the variable is set.
\<close>

definition once_inv :: "ocr_module \<Rightarrow> bool" where
  "once_inv m \<longleftrightarrow>
     created m \<le> 1 \<and> (created m = 1 \<longleftrightarrow> ocrPipeline m \<noteq> None) \<and>
     (awaiting m = [] \<or> (\<exists>k. awaiting m = [k] \<and> ocrPipeline m = None))"

text \<open>
  The invariant of a batch started on the queue \<open>queue0\<close> with valid files \<open>valid\<close>: the
  readers that fired are distinct, each has pushed the record of its own file, and the
  records reach the queue, all at once, when the last reader has fired.
\<close>

definition batch_inv :: "File list \<Rightarrow> UploadedFile list \<Rightarrow> batch \<times> app_state \<Rightarrow> bool" where
  "batch_inv valid queue0 bs \<longleftrightarrow>
     (case bs of (b, s) \<Rightarrow>
        validFiles b = valid \<and> distinct (loaded b) \<and> set (loaded b) \<subseteq> {..<length valid} \<and>
        map uf_file (uploadedFiles b) = map ((!) valid) (loaded b) \<and>
        (\<forall>r \<in> set (uploadedFiles b). status r = Pending \<and> extractedText r = None) \<and>
        files s = (if length (loaded b) = length valid then queue0 @ uploadedFiles b else queue0))"

section \<open>Sample data\<close>

text \<open>Concrete files and states on which the results below are evaluated.\<close>

definition fileA :: UploadedFile where
  "fileA = \<lparr>uf_id = ''A'', uf_file = \<lparr>file_name = ''a.png'', file_type = ''image/png'', file_size = 2048\<rparr>,
     preview = ''data:a'', status = Completed, extractedText = Some ''original''\<rparr>"

definition fileB :: UploadedFile where
  "fileB = \<lparr>uf_id = ''B'', uf_file = \<lparr>file_name = ''b.png'', file_type = ''image/png'', file_size = 4096\<rparr>,
     preview = ''data:b'', status = Pending, extractedText = None\<rparr>"

definition fileC :: UploadedFile where
  "fileC = \<lparr>uf_id = ''C'', uf_file = \<lparr>file_name = ''c.png'', file_type = ''image/png'', file_size = 1024\<rparr>,
     preview = ''data:c'', status = Completed, extractedText = Some ''third''\<rparr>"

definition preview_init :: preview_state where
  "preview_init = \<lparr>documentTitle = ''Extracted Document'', author_input = [], isEditing = False,
     editedSections = Map.empty\<rparr>"

definition fileD :: UploadedFile where
  "fileD = \<lparr>uf_id = ''D'', uf_file = \<lparr>file_name = ''d.png'', file_type = ''image/png'', file_size = 512\<rparr>,
     preview = ''data:d'', status = Pending, extractedText = None\<rparr>"

definition state0 :: app_state where
  "state0 = \<lparr>files = [fileA, fileB, fileD], isProcessing = False, processingProgress = 0,
     ocrInitialized = False, uploadProgress = 0, ocr = module_init, toasts = [],
     recognized = []\<rparr>"

definition state_done :: app_state where
  "state_done = \<lparr>files = [fileA, fileC], isProcessing = False, processingProgress = 0,
     ocrInitialized = False, uploadProgress = 0, ocr = module_init, toasts = [],
     recognized = []\<rparr>"

text \<open>The engine throws on the first targeted file and reads the others.\<close>

definition env_first_fails :: run_env where
  "env_first_fails = \<lparr>init_ok = True, load_ok = (\<lambda>i. True),
     call = (\<lambda>i. \<lparr>pipeline_ok = True, ctx_ok = True,
        engine = (if i = 0 then Engine_throws else Engine_returns (Some ''INVOICE 42''))\<rparr>)\<rparr>"

text \<open>\<open>pipeline(...)\<close> rejects.\<close>

definition env_no_engine :: run_env where
  "env_no_engine = \<lparr>init_ok = False, load_ok = (\<lambda>i. True),
     call = (\<lambda>i. \<lparr>pipeline_ok = False, ctx_ok = True, engine = Engine_throws\<rparr>)\<rparr>"

definition state_one :: app_state where
  "state_one = \<lparr>files = [fileB], isProcessing = False, processingProgress = 0,
     ocrInitialized = False, uploadProgress = 0, ocr = module_init, toasts = [],
     recognized = []\<rparr>"

text \<open>The engine returns a result without \<open>generated_text\<close>.\<close>

definition env_blank :: run_env where
  "env_blank = \<lparr>init_ok = True, load_ok = (\<lambda>i. True),
     call = (\<lambda>i. \<lparr>pipeline_ok = True, ctx_ok = True, engine = Engine_returns None\<rparr>)\<rparr>"

definition img1 :: File where
  "img1 = \<lparr>file_name = ''scan1.png'', file_type = ''image/png'', file_size = 34567\<rparr>"

definition img2 :: File where
  "img2 = \<lparr>file_name = ''scan2.jpg'', file_type = ''image/jpeg'', file_size = 10485760\<rparr>"

definition notes_pdf :: File where
  "notes_pdf = \<lparr>file_name = ''notes.pdf'', file_type = ''application/pdf'', file_size = 1000\<rparr>"

definition huge_png :: File where
  "huge_png = \<lparr>file_name = ''huge.png'', file_type = ''image/png'', file_size = 10485761\<rparr>"

definition state_empty :: app_state where
  "state_empty = \<lparr>files = [], isProcessing = False, processingProgress = 0,
     ocrInitialized = False, uploadProgress = 0, ocr = module_init, toasts = [],
     recognized = []\<rparr>"

text \<open>
  The queue after two batches of one file each whose readers fire in the same
  millisecond, and a run in which the engine reads the first targeted file and throws on
  the second.
\<close>

definition state_collided :: app_state where
  "state_collided =
     onDrop [img2] [(0, 1700000000000, ''data:image/jpeg;base64,BBBB'')]
       (onDrop [img1] [(0, 1700000000000, ''data:image/png;base64,AAAA'')] state_empty)"

definition env_second_fails :: run_env where
  "env_second_fails = \<lparr>init_ok = True, load_ok = (\<lambda>i. True),
     call = (\<lambda>i. \<lparr>pipeline_ok = True, ctx_ok = True,
        engine = (if i = 0 then Engine_returns (Some ''T1'') else Engine_throws)\<rparr>)\<rparr>"

section \<open>Results: the OCR service\<close>

lemma once_inv_init: "once_inv module_init"
  by (simp add: once_inv_def module_init_def)

lemma once_inv_step:
  assumes "once_inv m" and "is_call e \<Longrightarrow> awaiting m = []"
  shows "once_inv (step e m)"
proof (cases e)
  case Call_initializeOCR
  with assms show ?thesis
    by (auto simp: once_inv_def initializeOCR_begin_def)
next
  case Call_extractTextFromImage
  with assms show ?thesis
    by (auto simp: once_inv_def initializeOCR_begin_def)
next
  case (Settle k ok)
  with assms show ?thesis
    by (auto simp: once_inv_def initializeOCR_resume_def)
qed

lemma once_inv_exec:
  "once_inv m \<Longrightarrow> non_overlapping es m \<Longrightarrow> once_inv (exec es m)"
proof (induction es arbitrary: m)
  case Nil
  then show ?case by simp
next
  case (Cons e es)
  from Cons.prems have "once_inv (step e m)"
    by (intro once_inv_step) (auto split: if_splits)
  moreover from Cons.prems have "non_overlapping es (step e m)"
    by simp
  ultimately show ?case
    using Cons.IH by simp
qed

text \<open>
  C1, as stated, fails: two calls of \<open>initializeOCR\<close> that both start before the first
  \<open>pipeline(...)\<close> promise settles both find \<open>ocrPipeline\<close> empty, both call
  \<open>pipeline(...)\<close>, and two pipelines are built. The module holds no shared promise.
\<close>

theorem C1_overlap_counterexample:
  "created (exec [Call_initializeOCR, Call_initializeOCR, Settle 1 True, Settle 2 True]
      module_init) = 2"
  by (simp add: module_init_def initializeOCR_begin_def initializeOCR_resume_def)

text \<open>
  C1, amended: for every sequence of calls of \<open>initializeOCR\<close> and \<open>extractTextFromImage\<close>
  in which no call starts while an earlier initialization is still in progress, at most
  one recognition pipeline is built, and one has been built exactly when \<open>ocrPipeline\<close> is
  set.
\<close>

theorem C1_initialized_once_without_overlap:
  assumes "non_overlapping es module_init"
  shows "created (exec es module_init) \<le> 1 \<and>
         (created (exec es module_init) = 1 \<longleftrightarrow> ocrPipeline (exec es module_init) \<noteq> None)"
  using once_inv_exec [OF once_inv_init assms] by (simp add: once_inv_def)

theorem C1_initialized_once_without_overlap_witness:
  "non_overlapping
     [Call_initializeOCR, Settle 1 False, Call_extractTextFromImage, Settle 2 True,
      Call_initializeOCR, Call_extractTextFromImage] module_init \<and>
   created (exec
     [Call_initializeOCR, Settle 1 False, Call_extractTextFromImage, Settle 2 True,
      Call_initializeOCR, Call_extractTextFromImage] module_init) = 1 \<and>
   ocrPipeline (exec
     [Call_initializeOCR, Settle 1 False, Call_extractTextFromImage, Settle 2 True,
      Call_initializeOCR, Call_extractTextFromImage] module_init) = Some 2"
proof -
  have h: "non_overlapping
     [Call_initializeOCR, Settle 1 False, Call_extractTextFromImage, Settle 2 True,
      Call_initializeOCR, Call_extractTextFromImage] module_init"
    by (simp add: module_init_def initializeOCR_begin_def initializeOCR_resume_def)
  have v: "ocrPipeline (exec
     [Call_initializeOCR, Settle 1 False, Call_extractTextFromImage, Settle 2 True,
      Call_initializeOCR, Call_extractTextFromImage] module_init) = Some 2"
    by (simp add: module_init_def initializeOCR_begin_def initializeOCR_resume_def)
  from C1_initialized_once_without_overlap [OF h] v h show ?thesis
    by simp
qed

text \<open>
  C10: whenever \<open>extractTextFromImage\<close> returns a result, its confidence is 0.8, whatever
  the image and whatever the engine returned, and its text is the engine's
  \<open>generated_text\<close>, or the empty string when the engine produced none.
\<close>

theorem C10_fixed_confidence_and_text:
  "(fst (extractTextFromImage e m) = Inr r \<longrightarrow>
      confidence r = 0.8 \<and>
      (\<exists>g. engine e = Engine_returns g \<and>
           ocr_text r = (case g of None \<Rightarrow> [] | Some t \<Rightarrow> t))) \<and>
   ((ocrPipeline m \<noteq> None \<or> pipeline_ok e) \<and> ctx_ok e \<and> engine e = Engine_returns g' \<longrightarrow>
      fst (extractTextFromImage e m) =
        Inr \<lparr>ocr_text = (case g' of None \<Rightarrow> [] | Some t \<Rightarrow> t), confidence = 0.8\<rparr>)"
  by (auto simp: extractTextFromImage_def initializeOCR_def or_else_def Let_def
      split: engine_outcome.splits option.splits if_splits sum.splits prod.splits)

theorem C10_fixed_confidence_and_text_witness:
  "fst (extractTextFromImage
      \<lparr>pipeline_ok = True, ctx_ok = True, engine = Engine_returns None\<rparr> module_init) =
     Inr \<lparr>ocr_text = [], confidence = 0.8\<rparr> \<and>
   fst (extractTextFromImage
      \<lparr>pipeline_ok = True, ctx_ok = True, engine = Engine_returns (Some ''INVOICE 42'')\<rparr>
      module_init) =
     Inr \<lparr>ocr_text = ''INVOICE 42'', confidence = 0.8\<rparr>"
  using C10_fixed_confidence_and_text
      [of "\<lparr>pipeline_ok = True, ctx_ok = True, engine = Engine_returns None\<rparr>" module_init
          "\<lparr>ocr_text = [], confidence = 0.8\<rparr>" None]
    C10_fixed_confidence_and_text
      [of "\<lparr>pipeline_ok = True, ctx_ok = True, engine = Engine_returns (Some ''INVOICE 42'')\<rparr>"
          module_init "\<lparr>ocr_text = ''INVOICE 42'', confidence = 0.8\<rparr>" "Some ''INVOICE 42''"]
  by (simp add: module_init_def)

section \<open>Results: the exporter\<close>




section \<open>Results: the document assembler\<close>

lemma length_map_index: "length (map_index f i xs) = length xs"
  by (induction xs arbitrary: i) simp_all

lemma nth_map_index: "k < length xs \<Longrightarrow> map_index f i xs ! k = f (xs ! k) (i + k)"
proof (induction xs arbitrary: i k)
  case Nil
  then show ?case by simp
next
  case (Cons x xs)
  then show ?case by (cases k) simp_all
qed

text \<open>
  C4, as stated, fails: \<open>completedFiles\<close> also requires a non-empty \<open>extractedText\<close>. A
  run in which the engine returns no text for the only pending file leaves that file
  completed with the empty text, and the document assembled from it has no section.
\<close>

theorem C4_blank_completed_file_counterexample:
  "map status (files (processImages env_blank state_one)) = [Completed] \<and>
   sections (export_options preview_init (files (processImages env_blank state_one))) = []"
  by (simp add: processImages_def state_one_def env_blank_def initialize_run_def
      initializeOCR_def initializeOCR_begin_def initializeOCR_resume_def module_init_def
      pendingFiles_def fileB_def process_file_def load_and_extract_def
      extractTextFromImage_def set_status_def set_completed_def finally_block_def or_else_def
      Let_def export_options_def completedFiles_def)

text \<open>
  C4, amended: the assembled document holds exactly one section per file that is completed
  and has a non-empty extracted text, in queue order, and no section for any other file;
  the \<open>i\<close>-th section is titled with its position and the name of the \<open>i\<close>-th such file.
\<close>

theorem C4_sections_of_completed_files:
  "length (sections (export_options p fs)) = length (completedFiles fs) \<and>
   completedFiles fs =
     filter (\<lambda>f. status f = Completed \<and> (\<exists>t. extractedText f = Some t \<and> t \<noteq> [])) fs \<and>
   subseq (completedFiles fs) fs \<and>
   (\<forall>i < length (completedFiles fs).
      section_title (sections (export_options p fs) ! i) =
        Some (''Section '' @ string_of_nat (i + 1) @ '' - '' @
              file_name (uf_file (completedFiles fs ! i))) \<and>
      content (sections (export_options p fs) ! i) = getSectionContent p (completedFiles fs ! i))"
proof -
  have t: "truthy x \<longleftrightarrow> (\<exists>t. x = Some t \<and> t \<noteq> [])" for x
    by (cases x) simp_all
  show ?thesis
    by (simp add: export_options_def length_map_index nth_map_index make_section_def
        completedFiles_def t)
qed

theorem C4_sections_of_completed_files_witness:
  "map section_title (sections (export_options preview_init [fileA, fileB, fileC])) =
     [Some ''Section 1 - a.png'', Some ''Section 2 - c.png''] \<and>
   map content (sections (export_options preview_init [fileA, fileB, fileC])) =
     [''original'', ''third'']"
proof -
  have c: "completedFiles [fileA, fileB, fileC] = [fileA, fileC]"
    by (simp add: completedFiles_def fileA_def fileB_def fileC_def)
  have l: "length (sections (export_options preview_init [fileA, fileB, fileC])) = 2"
    using C4_sections_of_completed_files [of preview_init "[fileA, fileB, fileC]"] c by simp
  have s0: "section_title (sections (export_options preview_init [fileA, fileB, fileC]) ! 0) =
        Some ''Section 1 - a.png'' \<and>
      content (sections (export_options preview_init [fileA, fileB, fileC]) ! 0) = ''original''"
    using C4_sections_of_completed_files [of preview_init "[fileA, fileB, fileC]"] c
    by (simp add: fileA_def getSectionContent_def preview_init_def or_else_def
        string_of_nat.simps digit_char_def)
  have s1: "section_title (sections (export_options preview_init [fileA, fileB, fileC]) ! 1) =
        Some ''Section 2 - c.png'' \<and>
      content (sections (export_options preview_init [fileA, fileB, fileC]) ! 1) = ''third''"
    using C4_sections_of_completed_files [of preview_init "[fileA, fileB, fileC]"] c
    by (simp add: fileC_def getSectionContent_def preview_init_def or_else_def
        string_of_nat.simps digit_char_def)
  obtain a b where ab: "sections (export_options preview_init [fileA, fileB, fileC]) = [a, b]"
    using l by (metis (no_types) length_0_conv length_Suc_conv numeral_2_eq_2)
  with s0 s1 show ?thesis by simp
qed

text \<open>
  C5, as stated, fails: an overlay entry that is present but empty (the user cleared the
  text box) is skipped by \<open>||\<close>, and the stored text is exported.
\<close>

theorem C5_cleared_edit_counterexample:
  "editedSections (handleSectionEdit ''A'' [] preview_init) ''A'' = Some [] \<and>
   map content (sections (export_options (handleSectionEdit ''A'' [] preview_init) [fileA])) =
     [''original'']"
  by (simp add: fileA_def export_options_def completedFiles_def handleSectionEdit_def
      preview_init_def make_section_def getSectionContent_def or_else_def)

text \<open>
  C5, amended: the body of the section of a completed file is the overlay value for the
  file's id when an entry is present and not empty, and the stored extracted text
  otherwise.
\<close>

theorem C5_section_body:
  assumes "i < length (completedFiles fs)"
  shows "\<exists>stored. extractedText (completedFiles fs ! i) = Some stored \<and> stored \<noteq> [] \<and>
     content (sections (export_options p fs) ! i) =
       (case editedSections p (uf_id (completedFiles fs ! i)) of
          None \<Rightarrow> stored
        | Some edited \<Rightarrow> if edited = [] then stored else edited)"
proof -
  have "completedFiles fs ! i \<in> set (completedFiles fs)"
    using assms by simp
  then have "truthy (extractedText (completedFiles fs ! i))"
    by (simp add: completedFiles_def)
  then obtain stored where s: "extractedText (completedFiles fs ! i) = Some stored" "stored \<noteq> []"
    by (cases "extractedText (completedFiles fs ! i)") simp_all
  with assms show ?thesis
    by (simp add: export_options_def nth_map_index make_section_def getSectionContent_def
        or_else_def split: option.splits)
qed

theorem C5_section_body_witness:
  "content (sections (export_options (handleSectionEdit ''A'' ''edited text'' preview_init)
      [fileA]) ! 0) = ''edited text'' \<and>
   content (sections (export_options preview_init [fileA]) ! 0) = ''original''"
proof -
  have c: "completedFiles [fileA] = [fileA]"
    by (simp add: completedFiles_def fileA_def)
  then have h: "0 < length (completedFiles [fileA])"
    by simp
  show ?thesis
    using C5_section_body [OF h, of "handleSectionEdit ''A'' ''edited text'' preview_init"]
      C5_section_body [OF h, of preview_init] c
    by (simp add: fileA_def handleSectionEdit_def preview_init_def)
qed

section \<open>Results: the processing orchestrator\<close>

lemma extract_ready:
  assumes "ocrPipeline m \<noteq> None"
  shows "extractTextFromImage e m =
     (if \<not> ctx_ok e \<or> engine e = Engine_throws then Inl Failed_to_extract_text
      else Inr \<lparr>ocr_text = (case engine e of Engine_throws \<Rightarrow> [] | Engine_returns g \<Rightarrow> or_else g []),
                confidence = 0.8\<rparr>, m)"
proof -
  from assms obtain k where "ocrPipeline m = Some k"
    by (cases "ocrPipeline m") simp_all
  then show ?thesis
    by (simp add: extractTextFromImage_def split: engine_outcome.splits)
qed

lemma load_and_extract_ready:
  assumes "ocrPipeline (ocr s) \<noteq> None"
  shows "load_and_extract env i file s =
     (if recognition_fails env i
      then Inl (if load_ok env i then Failed_to_extract_text else Image_load_failed)
      else Inr \<lparr>ocr_text = recognized_text env i, confidence = 0.8\<rparr>,
      if load_ok env i then s\<lparr>recognized := recognized s @ [file]\<rparr> else s)"
  using assms
  by (simp add: load_and_extract_def extract_ready recognition_fails_def recognized_text_def)

lemma set_status_twice: "set_status ident st (set_status ident st' fs) =
    map (\<lambda>f. if uf_id f = ident then f\<lparr>status := st\<rparr> else f) fs"
  by (simp add: set_status_def)

lemma set_completed_after: "set_completed ident t (set_status ident st' fs) =
    map (\<lambda>f. if uf_id f = ident then f\<lparr>status := Completed, extractedText := Some t\<rparr> else f) fs"
  by (simp add: set_status_def set_completed_def)

lemma process_file_ready:
  assumes "ocrPipeline (ocr s) \<noteq> None"
  shows "files (process_file env n i t s) =
           map (\<lambda>f. if uf_id f = uf_id t then outcome_update env i f else f) (files s)"
    and "ocr (process_file env n i t s) = ocr s"
    and "toasts (process_file env n i t s) = toasts s @ [outcome_toast env t i]"
  using assms
  by (simp_all add: process_file_def load_and_extract_ready set_status_twice set_completed_after
      outcome_update_def outcome_toast_def)

lemma process_loop_ready:
  assumes "ocrPipeline (ocr s) \<noteq> None"
  shows "files (process_loop env n i rest s) = map (apply_results env i rest) (files s) \<and>
         ocr (process_loop env n i rest s) = ocr s \<and>
         toasts (process_loop env n i rest s) = toasts s @ map_index (outcome_toast env) i rest"
  using assms
proof (induction rest arbitrary: s i)
  case Nil
  then show ?case by simp
next
  case (Cons t rest)
  have r: "ocrPipeline (ocr (process_file env n i t s)) \<noteq> None"
    using Cons.prems by (simp add: process_file_ready)
  show ?case
    using Cons.IH [OF r] Cons.prems
    by (simp add: process_file_ready comp_def)
qed

lemma outcome_update_id: "uf_id (outcome_update env i f) = uf_id f"
  by (simp add: outcome_update_def)

lemma apply_results_other:
  "uf_id f \<notin> uf_id ` set rest \<Longrightarrow> apply_results env i rest f = f"
  by (induction rest arbitrary: i) auto

lemma apply_results_target:
  assumes "distinct (map uf_id rest)" and "j < length rest" and "uf_id f = uf_id (rest ! j)"
  shows "apply_results env i rest f = outcome_update env (i + j) f"
  using assms
proof (induction rest arbitrary: i j f)
  case Nil
  then show ?case by simp
next
  case (Cons t rest)
  show ?case
  proof (cases j)
    case 0
    with Cons.prems show ?thesis
      by (simp add: apply_results_other outcome_update_id)
  next
    case (Suc j')
    with Cons.prems have "rest ! j' \<in> set rest"
      by simp
    with Cons.prems Suc have "uf_id f \<noteq> uf_id t"
      by force
    with Cons.prems Suc Cons.IH [of j' f "Suc i"] show ?thesis
      by simp
  qed
qed

lemma process_file_recognized:
  "recognized (process_file env n i t s) = recognized s \<or>
   recognized (process_file env n i t s) = recognized s @ [t]"
  by (cases "extractTextFromImage (call env i) (ocr s)")
    (auto simp: process_file_def load_and_extract_def Let_def split: sum.splits)

lemma process_file_length: "length (files (process_file env n i t s)) = length (files s)"
  by (cases "extractTextFromImage (call env i) (ocr s)")
    (auto simp: process_file_def load_and_extract_def Let_def set_status_def set_completed_def
      split: sum.splits)

lemma process_loop_recognized:
  "\<exists>new. recognized (process_loop env n i rest s) = recognized s @ new \<and> set new \<subseteq> set rest"
proof (induction rest arbitrary: s i)
  case Nil
  then show ?case by simp
next
  case (Cons t rest)
  obtain new where n: "recognized (process_loop env n (Suc i) rest (process_file env n i t s)) =
      recognized (process_file env n i t s) @ new" "set new \<subseteq> set rest"
    using Cons.IH by blast
  from process_file_recognized [of env n i t s] show ?case
  proof
    assume "recognized (process_file env n i t s) = recognized s"
    with n show ?thesis by auto
  next
    assume "recognized (process_file env n i t s) = recognized s @ [t]"
    with n have "recognized (process_loop env n i (t # rest) s) = recognized s @ (t # new)"
      by simp
    moreover have "set (t # new) \<subseteq> set (t # rest)"
      using n by auto
    ultimately show ?thesis by blast
  qed
qed

lemma set_status_other:
  "k < length fs \<Longrightarrow> uf_id (fs ! k) \<noteq> ident \<Longrightarrow> set_status ident st fs ! k = fs ! k"
  by (simp add: set_status_def)

lemma set_completed_other:
  "k < length fs \<Longrightarrow> uf_id (fs ! k) \<noteq> ident \<Longrightarrow> set_completed ident t fs ! k = fs ! k"
  by (simp add: set_completed_def)

lemma process_file_files:
  "files (process_file env n i t s) = set_status (uf_id t) Error (set_status (uf_id t) Processing (files s)) \<or>
   (\<exists>txt. files (process_file env n i t s) =
      set_completed (uf_id t) txt (set_status (uf_id t) Processing (files s)))"
  by (cases "extractTextFromImage (call env i) (ocr s)")
    (auto simp: process_file_def load_and_extract_def Let_def split: sum.splits)

lemma process_file_other:
  assumes "k < length (files s)" and "uf_id (files s ! k) \<noteq> uf_id t"
  shows "files (process_file env n i t s) ! k = files s ! k"
proof -
  have l: "k < length (set_status (uf_id t) Processing (files s))"
    using assms by (simp add: set_status_def)
  have p: "set_status (uf_id t) Processing (files s) ! k = files s ! k"
    using assms by (simp add: set_status_other)
  from process_file_files [of env n i t s] show ?thesis
    using l p assms by (auto simp: set_status_other set_completed_other)
qed

lemma process_loop_other:
  assumes "k < length (files s)" and "uf_id (files s ! k) \<notin> uf_id ` set rest"
  shows "files (process_loop env n i rest s) ! k = files s ! k"
  using assms
proof (induction rest arbitrary: s i)
  case Nil
  then show ?case by simp
next
  case (Cons t rest)
  let ?s1 = "process_file env n i t s"
  have o: "files ?s1 ! k = files s ! k"
    using Cons.prems by (simp add: process_file_other)
  have l: "k < length (files ?s1)"
    using Cons.prems by (simp add: process_file_length)
  have "files (process_loop env n (Suc i) rest ?s1) ! k = files ?s1 ! k"
    using Cons.IH [OF l] o Cons.prems by simp
  with o show ?case by simp
qed

lemma initialize_run_frame:
  "initialize_run env s = Inr s2 \<or> initialize_run env s = Inl s2 \<Longrightarrow>
     files s2 = files s \<and> recognized s2 = recognized s"
  by (cases "initializeOCR (init_ok env) (ocr s)")
    (auto simp: initialize_run_def Let_def split: if_splits sum.splits)

lemma initialize_run_ready:
  assumes "ocrPipeline (ocr s) \<noteq> None \<or> (\<not> ocrInitialized s \<and> init_ok env)"
  shows "\<exists>s2. initialize_run env s = Inr s2 \<and> ocrPipeline (ocr s2) \<noteq> None \<and>
          (\<exists>pre. toasts s2 = toasts s @ pre)"
proof (cases "ocrInitialized s")
  case True
  with assms show ?thesis
    by (simp add: initialize_run_def)
next
  case False
  show ?thesis
  proof (cases "ocrPipeline (ocr s)")
    case None
    with assms False show ?thesis
      by (simp add: initialize_run_def initializeOCR_def initializeOCR_begin_def
          initializeOCR_resume_def Let_def)
  next
    case (Some p)
    with False show ?thesis
      by (simp add: initialize_run_def initializeOCR_def)
  qed
qed

lemma initialize_run_fails:
  assumes "\<not> ocrInitialized s" and "ocrPipeline (ocr s) = None" and "\<not> init_ok env"
  shows "\<exists>s2. initialize_run env s = Inl s2 \<and>
           toasts s2 = toasts s @ [Toast_info ''Initializing OCR engine...''] \<and>
           \<not> ocrInitialized s2 \<and> ocrPipeline (ocr s2) = None"
  using assms
  by (simp add: initialize_run_def initializeOCR_def initializeOCR_begin_def
      initializeOCR_resume_def Let_def)

text \<open>
  C3: when the run has to initialize the engine and \<open>pipeline(...)\<close> fails, the run is
  aborted: the file collection is unchanged, so every targeted file is still pending with
  no text stored, no recognition is attempted, and the failure is reported by exactly one
  error toast.
\<close>

theorem C3_initialization_failure_aborts_run:
  assumes "files s \<noteq> []" and "\<not> ocrInitialized s" and "ocrPipeline (ocr s) = None"
    and "\<not> init_ok env"
  shows "files (processImages env s) = files s \<and>
         pendingFiles (processImages env s) = pendingFiles s \<and>
         recognized (processImages env s) = recognized s \<and>
         toasts (processImages env s) =
           toasts s @ [Toast_info ''Initializing OCR engine...'',
                       Toast_error ''Failed to process images''] \<and>
         \<not> ocrInitialized (processImages env s) \<and> \<not> isProcessing (processImages env s)"
proof -
  let ?s1 = "s\<lparr>isProcessing := True, processingProgress := 0\<rparr>"
  obtain s2 where s2: "initialize_run env ?s1 = Inl s2"
    "toasts s2 = toasts ?s1 @ [Toast_info ''Initializing OCR engine...'']"
    "\<not> ocrInitialized s2"
    using initialize_run_fails [of ?s1 env] assms by auto
  then have f: "files s2 = files s" "recognized s2 = recognized s"
    using initialize_run_frame [of env ?s1 s2] by simp_all
  from assms s2 f show ?thesis
    by (simp add: processImages_def finally_block_def pendingFiles_def)
qed

theorem C3_initialization_failure_aborts_run_witness:
  "files (processImages env_no_engine state0) = [fileA, fileB, fileD] \<and>
   toasts (processImages env_no_engine state0) =
     [Toast_info ''Initializing OCR engine...'', Toast_error ''Failed to process images'']"
proof -
  have h: "files state0 \<noteq> []" "\<not> ocrInitialized state0" "ocrPipeline (ocr state0) = None"
    "\<not> init_ok env_no_engine"
    by (simp_all add: state0_def module_init_def env_no_engine_def)
  from C3_initialization_failure_aborts_run [OF h] show ?thesis
    by (simp add: state0_def)
qed

lemma run_without_pending:
  assumes "pendingFiles s = []"
  shows "files (processImages env s) = files s \<and>
         recognized (processImages env s) = recognized s"
proof (cases "initialize_run env (s\<lparr>isProcessing := True, processingProgress := 0\<rparr>)")
  case (Inl s2)
  with initialize_run_frame [of env "s\<lparr>isProcessing := True, processingProgress := 0\<rparr>" s2]
  show ?thesis
    by (simp add: processImages_def finally_block_def)
next
  case (Inr s2)
  with initialize_run_frame [of env "s\<lparr>isProcessing := True, processingProgress := 0\<rparr>" s2] assms
  show ?thesis
    by (simp add: processImages_def finally_block_def)
qed

lemma run_recognizes_pending_only:
  "\<exists>new. recognized (processImages env s) = recognized s @ new \<and>
     set new \<subseteq> set (pendingFiles s)"
proof (cases "pendingFiles s = []")
  case True
  with run_without_pending [of s env] show ?thesis by simp
next
  case False
  let ?s1 = "s\<lparr>isProcessing := True, processingProgress := 0\<rparr>"
  let ?pf = "pendingFiles s"
  from False have ne: "files s \<noteq> []"
    by (auto simp: pendingFiles_def)
  show ?thesis
  proof (cases "initialize_run env ?s1")
    case (Inl s2)
    with ne initialize_run_frame [of env ?s1 s2] show ?thesis
      by (simp add: processImages_def finally_block_def)
  next
    case (Inr s2)
    obtain new where "recognized (process_loop env (length ?pf) 0 ?pf s2) = recognized s2 @ new"
      "set new \<subseteq> set ?pf"
      using process_loop_recognized by blast
    with Inr ne False initialize_run_frame [of env ?s1 s2] show ?thesis
      by (simp add: processImages_def finally_block_def Let_def)
  qed
qed

lemma run_leaves_non_pending:
  assumes d: "distinct (map uf_id (files s))" and k: "k < length (files s)"
    and st: "status (files s ! k) \<noteq> Pending"
  shows "files (processImages env s) ! k = files s ! k"
proof (cases "pendingFiles s = []")
  case True
  with run_without_pending [of s env] show ?thesis by simp
next
  case False
  let ?s1 = "s\<lparr>isProcessing := True, processingProgress := 0\<rparr>"
  let ?pf = "pendingFiles s"
  from False have ne: "files s \<noteq> []"
    by (auto simp: pendingFiles_def)
  show ?thesis
  proof (cases "initialize_run env ?s1")
    case (Inl s2)
    with ne initialize_run_frame [of env ?s1 s2] show ?thesis
      by (simp add: processImages_def finally_block_def)
  next
    case (Inr s2)
    have "uf_id (files s ! k) \<notin> uf_id ` set ?pf"
    proof
      assume "uf_id (files s ! k) \<in> uf_id ` set ?pf"
      then obtain p where p: "p \<in> set ?pf" "uf_id p = uf_id (files s ! k)"
        by auto
      then have "p \<in> set (files s)" "status p = Pending"
        by (simp_all add: pendingFiles_def)
      moreover have "files s ! k \<in> set (files s)"
        using k by simp
      ultimately have "p = files s ! k"
        using d p by (meson distinct_map inj_onD)
      with \<open>status p = Pending\<close> st show False by simp
    qed
    then have "files (process_loop env (length ?pf) 0 ?pf s2) ! k = files s2 ! k"
      using k initialize_run_frame [of env ?s1 s2] Inr by (intro process_loop_other) simp_all
    with Inr ne False initialize_run_frame [of env ?s1 s2] show ?thesis
      by (simp add: processImages_def finally_block_def Let_def)
  qed
qed

lemma files_finally: "files (finally_block (s\<lparr>toasts := t\<rparr>)) = files s"
  by (simp add: finally_block_def)

lemma toasts_finally: "toasts (finally_block (s\<lparr>toasts := t\<rparr>)) = t"
  by (simp add: finally_block_def)

lemma pending_ids_distinct:
  "distinct (map uf_id (files s)) \<Longrightarrow> distinct (map uf_id (pendingFiles s))"
  by (simp add: pendingFiles_def distinct_map_filter)

lemma run_completes:
  assumes ready: "ocrPipeline (ocr s) \<noteq> None \<or> (\<not> ocrInitialized s \<and> init_ok env)"
    and pf: "pendingFiles s \<noteq> []"
  shows "files (processImages env s) = map (apply_results env 0 (pendingFiles s)) (files s) \<and>
     (\<exists>pre. toasts (processImages env s) =
        toasts s @ pre @ map_index (outcome_toast env) 0 (pendingFiles s) @
        [Toast_success ''All images processed successfully!''])"
proof -
  let ?s1 = "s\<lparr>isProcessing := True, processingProgress := 0\<rparr>"
  from pf have ne: "files s \<noteq> []"
    by (auto simp: pendingFiles_def)
  obtain s2 pre where s2: "initialize_run env ?s1 = Inr s2" "ocrPipeline (ocr s2) \<noteq> None"
    "toasts s2 = toasts s @ pre"
    using initialize_run_ready [of ?s1 env] ready by auto
  then have f: "files s2 = files s"
    using initialize_run_frame [of env ?s1 s2] by simp
  from process_loop_ready [OF s2(2)] s2 f ne pf show ?thesis
    by (simp add: processImages_def Let_def files_finally toasts_finally)
qed

lemma outcome_update_terminal: "status (outcome_update env i f) \<noteq> Pending"
  by (simp add: outcome_update_def)

lemma apply_results_not_pending:
  "status f \<noteq> Pending \<or> uf_id f \<in> uf_id ` set rest \<Longrightarrow>
     status (apply_results env i rest f) \<noteq> Pending"
proof (induction rest arbitrary: i f)
  case Nil
  then show ?case by simp
next
  case (Cons t rest)
  show ?case
  proof (cases "uf_id f = uf_id t")
    case True
    then show ?thesis
      using Cons.IH [of "outcome_update env i f" "Suc i"]
      by (simp add: outcome_update_terminal)
  next
    case False
    with Cons.prems Cons.IH [of f "Suc i"] show ?thesis
      by auto
  qed
qed

lemma run_leaves_none_pending:
  assumes "ocrPipeline (ocr s) \<noteq> None \<or> (\<not> ocrInitialized s \<and> init_ok env)"
  shows "pendingFiles (processImages env s) = []"
proof (cases "pendingFiles s = []")
  case True
  with run_without_pending [of s env] show ?thesis
    by (simp add: pendingFiles_def)
next
  case False
  from run_completes [OF assms False]
  have fs: "files (processImages env s) = map (apply_results env 0 (pendingFiles s)) (files s)"
    by blast
  have "status (apply_results env 0 (pendingFiles s) f) \<noteq> Pending" if "f \<in> set (files s)" for f
  proof (rule apply_results_not_pending)
    show "status f \<noteq> Pending \<or> uf_id f \<in> uf_id ` set (pendingFiles s)"
      using that by (auto simp: pendingFiles_def)
  qed
  then show ?thesis
    unfolding pendingFiles_def fs by (simp add: filter_empty_conv)
qed

text \<open>
  C6: a run that finds no pending file leaves the file collection as it is and hands no
  image to the recognizer; a run that gets past initialization leaves no file pending, so
  a second run right after it is such a run. In every run the recognizer only receives
  records that were pending at the start, and (ids being distinct) every record that was
  not pending is left as it was.
\<close>

theorem C6_rerun_without_pending_is_noop:
  "(pendingFiles s = [] \<longrightarrow>
      files (processImages env s) = files s \<and>
      recognized (processImages env s) = recognized s) \<and>
   (ocrPipeline (ocr s) \<noteq> None \<or> (\<not> ocrInitialized s \<and> init_ok env) \<longrightarrow>
      pendingFiles (processImages env s) = [] \<and>
      files (processImages env' (processImages env s)) = files (processImages env s) \<and>
      recognized (processImages env' (processImages env s)) =
        recognized (processImages env s)) \<and>
   (\<exists>new. recognized (processImages env s) = recognized s @ new \<and>
      set new \<subseteq> set (pendingFiles s)) \<and>
   (distinct (map uf_id (files s)) \<longrightarrow>
      (\<forall>k < length (files s). status (files s ! k) \<noteq> Pending \<longrightarrow>
         files (processImages env s) ! k = files s ! k))"
  using run_without_pending [of s env] run_without_pending [of "processImages env s" env']
    run_leaves_none_pending [of s env] run_recognizes_pending_only [of env s]
    run_leaves_non_pending [of s _ env]
  by blast

theorem C6_rerun_without_pending_is_noop_witness:
  "files (processImages env_first_fails state_done) = [fileA, fileC] \<and>
   recognized (processImages env_first_fails state_done) = [] \<and>
   files (processImages env_blank (processImages env_first_fails state0)) =
     files (processImages env_first_fails state0) \<and>
   files (processImages env_first_fails state0) ! 0 = fileA"
proof -
  have h: "pendingFiles state_done = []"
    by (simp add: pendingFiles_def state_done_def fileA_def fileC_def)
  have ready: "ocrPipeline (ocr state0) \<noteq> None \<or>
      (\<not> ocrInitialized state0 \<and> init_ok env_first_fails)"
    by (simp add: state0_def env_first_fails_def)
  have ids: "distinct (map uf_id (files state0))"
    by (simp add: state0_def fileA_def fileB_def fileD_def)
  have k: "0 < length (files state0)" "status (files state0 ! 0) \<noteq> Pending"
    by (simp_all add: state0_def fileA_def)
  from C6_rerun_without_pending_is_noop [of state_done env_first_fails] h
  have "files (processImages env_first_fails state_done) = [fileA, fileC] \<and>
      recognized (processImages env_first_fails state_done) = []"
    by (simp add: state_done_def)
  moreover from C6_rerun_without_pending_is_noop [of state0 env_first_fails env_blank] ready
  have "files (processImages env_blank (processImages env_first_fails state0)) =
      files (processImages env_first_fails state0)"
    by blast
  moreover from C6_rerun_without_pending_is_noop [of state0 env_first_fails] ids k
  have "files (processImages env_first_fails state0) ! 0 = fileA"
    by (simp add: state0_def)
  ultimately show ?thesis by blast
qed

text \<open>
  A run that gets past initialization, over a collection with distinct ids: when the
  recognition of the \<open>j\<close>-th targeted file fails, that file's record ends as it was
  before the run except for status \<open>error\<close>, an error toast naming that file is shown,
  every targeted file ends with the outcome of its own recognition, and no record that
  was not targeted changes.
\<close>

lemma run_with_distinct_ids:
  assumes ids: "distinct (map uf_id (files s))"
    and ready: "ocrPipeline (ocr s) \<noteq> None \<or> (\<not> ocrInitialized s \<and> init_ok env)"
    and j: "j < length (pendingFiles s)"
    and fails: "recognition_fails env j"
  shows "length (files (processImages env s)) = length (files s) \<and>
     (\<forall>k < length (files s). files s ! k = pendingFiles s ! j \<longrightarrow>
        files (processImages env s) ! k = (files s ! k)\<lparr>status := Error\<rparr>) \<and>
     Toast_error (''Failed to process '' @ file_name (uf_file (pendingFiles s ! j)))
        \<in> set (toasts (processImages env s)) \<and>
     (\<forall>i < length (pendingFiles s). \<forall>k < length (files s).
        files s ! k = pendingFiles s ! i \<longrightarrow>
        files (processImages env s) ! k =
          (if recognition_fails env i then (files s ! k)\<lparr>status := Error\<rparr>
           else (files s ! k)\<lparr>status := Completed,
                               extractedText := Some (recognized_text env i)\<rparr>)) \<and>
     (\<forall>k < length (files s). status (files s ! k) \<noteq> Pending \<longrightarrow>
        files (processImages env s) ! k = files s ! k)"
proof -
  let ?pf = "pendingFiles s"
  let ?s' = "processImages env s"
  from j have pf: "?pf \<noteq> []"
    by auto
  from run_completes [OF ready pf] obtain pre where
    fs: "files ?s' = map (apply_results env 0 ?pf) (files s)" and
    ts: "toasts ?s' = toasts s @ pre @ map_index (outcome_toast env) 0 ?pf @
        [Toast_success ''All images processed successfully!'']"
    by blast
  have d: "distinct (map uf_id ?pf)"
    using ids by (rule pending_ids_distinct)
  have target: "files ?s' ! k = outcome_update env i (files s ! k)"
    if "i < length ?pf" "k < length (files s)" "files s ! k = ?pf ! i" for i k
    using that fs apply_results_target [OF d that(1), of "files s ! k" env 0] by simp
  have len: "length (files ?s') = length (files s)"
    using fs by simp
  have failed: "\<forall>k < length (files s). files s ! k = ?pf ! j \<longrightarrow>
        files ?s' ! k = (files s ! k)\<lparr>status := Error\<rparr>"
    using target [OF j] fails by (simp add: outcome_update_def)
  have "map_index (outcome_toast env) 0 ?pf ! j =
      Toast_error (''Failed to process '' @ file_name (uf_file (?pf ! j)))"
    using j fails by (simp add: nth_map_index outcome_toast_def)
  moreover have "j < length (map_index (outcome_toast env) 0 ?pf)"
    using j by (simp add: length_map_index)
  ultimately have "Toast_error (''Failed to process '' @ file_name (uf_file (?pf ! j)))
      \<in> set (map_index (outcome_toast env) 0 ?pf)"
    by (metis nth_mem)
  then have toast: "Toast_error (''Failed to process '' @ file_name (uf_file (?pf ! j)))
      \<in> set (toasts ?s')"
    using ts by simp
  have each: "\<forall>i < length ?pf. \<forall>k < length (files s). files s ! k = ?pf ! i \<longrightarrow>
        files ?s' ! k =
          (if recognition_fails env i then (files s ! k)\<lparr>status := Error\<rparr>
           else (files s ! k)\<lparr>status := Completed,
                               extractedText := Some (recognized_text env i)\<rparr>)"
    using target by (simp add: outcome_update_def)
  have others: "\<forall>k < length (files s). status (files s ! k) \<noteq> Pending \<longrightarrow>
        files ?s' ! k = files s ! k"
    using run_leaves_non_pending [OF ids] by blast
  from len failed toast each others show ?thesis
    by blast
qed


lemma run_with_distinct_ids_example:
  "files (processImages env_first_fails state0) ! 0 = fileA \<and>
   files (processImages env_first_fails state0) ! 1 = fileB\<lparr>status := Error\<rparr> \<and>
   files (processImages env_first_fails state0) ! 2 =
     fileD\<lparr>status := Completed, extractedText := Some ''INVOICE 42''\<rparr> \<and>
   Toast_error ''Failed to process b.png'' \<in> set (toasts (processImages env_first_fails state0))"
proof -
  have pf: "pendingFiles state0 = [fileB, fileD]"
    by (simp add: pendingFiles_def state0_def fileA_def fileB_def fileD_def)
  have ids: "distinct (map uf_id (files state0))"
    by (simp add: state0_def fileA_def fileB_def fileD_def)
  have ready: "ocrPipeline (ocr state0) \<noteq> None \<or> (\<not> ocrInitialized state0 \<and> init_ok env_first_fails)"
    by (simp add: state0_def env_first_fails_def)
  have j: "0 < length (pendingFiles state0)"
    by (simp add: pf)
  have fails: "recognition_fails env_first_fails 0"
    by (simp add: recognition_fails_def env_first_fails_def)
  have ok: "\<not> recognition_fails env_first_fails 1"
    "recognized_text env_first_fails 1 = ''INVOICE 42''"
    by (simp_all add: recognition_fails_def recognized_text_def env_first_fails_def or_else_def)
  have fl: "files state0 = [fileA, fileB, fileD]"
    by (simp add: state0_def)
  have st: "status fileA \<noteq> Pending" "file_name (uf_file fileB) = ''b.png''"
    by (simp_all add: fileA_def fileB_def)
  note t = run_with_distinct_ids [OF ids ready j fails]
  from t have "files (processImages env_first_fails state0) ! 0 = fileA"
    using fl st by simp
  moreover from t have "files (processImages env_first_fails state0) ! 1 = fileB\<lparr>status := Error\<rparr>"
    using fl pf by simp
  moreover from t have "files (processImages env_first_fails state0) ! 2 =
      fileD\<lparr>status := Completed, extractedText := Some ''INVOICE 42''\<rparr>"
    using fl pf ok by force
  moreover from t have "Toast_error ''Failed to process b.png''
      \<in> set (toasts (processImages env_first_fails state0))"
    using pf st by simp
  ultimately show ?thesis by blast
qed

text \<open>
  C2 fails on the code: the loop updates records by id, and intake can give two records
  the same id. On the queue of two pending records that share an id, let the engine read
  the first file and throw on the second. The failure of the second file also sets the
  first file, which was read, to \<open>error\<close>, and the failed file ends with the text of the
  first stored in its record.
\<close>

theorem C2_shared_id_failure_marks_both:
  "map uf_file (files state_collided) = [img1, img2] \<and>
   map status (files state_collided) = [Pending, Pending] \<and>
   map uf_file (files (processImages env_second_fails state_collided)) = [img1, img2] \<and>
   map status (files (processImages env_second_fails state_collided)) = [Error, Error] \<and>
   map extractedText (files (processImages env_second_fails state_collided)) =
     [Some ''T1'', Some ''T1''] \<and>
   toasts (processImages env_second_fails state_collided) =
     [Toast_success ''1 image(s) uploaded successfully!'',
      Toast_success ''1 image(s) uploaded successfully!'',
      Toast_info ''Initializing OCR engine...'',
      Toast_success ''Extracted text from scan1.png'',
      Toast_error ''Failed to process scan2.jpg'',
      Toast_success ''All images processed successfully!'']"
  by (simp add: state_collided_def onDrop_def onDrop_begin_def check_file_def img1_def img2_def
      onload_def state_empty_def Let_def handleFilesAdded_def string_of_nat.simps digit_char_def
      processImages_def env_second_fails_def initialize_run_def
      initializeOCR_def initializeOCR_begin_def initializeOCR_resume_def module_init_def
      pendingFiles_def process_file_def load_and_extract_def
      extractTextFromImage_def set_status_def set_completed_def finally_block_def or_else_def)

section \<open>Results: image intake\<close>

lemma check_file_accepts:
  "fst (check_file f) \<longleftrightarrow> prefix ''image/'' (file_type f) \<and> file_size f \<le> 10 * 1024 * 1024"
  by (simp add: check_file_def)

lemma diagnostics_count:
  "length (concat (map (\<lambda>f. snd (check_file f)) acc)) =
   length (filter (\<lambda>f. \<not> fst (check_file f)) acc)"
  by (induction acc) (simp_all add: check_file_def)

lemma full_load:
  assumes "distinct xs" and "set xs \<subseteq> {..<n}" and "length xs = n"
  shows "set xs = {..<n}"
proof -
  have "card (set xs) = card {..<n}"
    using assms by (simp add: distinct_card)
  with assms(2) show ?thesis
    by (simp add: card_subset_eq)
qed

lemma onload_inv:
  assumes "batch_inv valid q0 bs"
  shows "batch_inv valid q0 (onload ev bs)"
proof -
  obtain b s where bs: "bs = (b, s)"
    by (cases bs)
  obtain index now result where ev: "ev = (index, now, result)"
    by (cases ev)
  from assms bs have inv: "validFiles b = valid" "distinct (loaded b)"
    "set (loaded b) \<subseteq> {..<length valid}"
    "map uf_file (uploadedFiles b) = map ((!) valid) (loaded b)"
    "\<forall>r \<in> set (uploadedFiles b). status r = Pending \<and> extractedText r = None"
    "files s = (if length (loaded b) = length valid then q0 @ uploadedFiles b else q0)"
    by (simp_all add: batch_inv_def)
  have len: "length (uploadedFiles b) = length (loaded b)"
    using inv(4) by (metis length_map)
  show ?thesis
  proof (cases "index < length (validFiles b) \<and> index \<notin> set (loaded b)")
    case False
    with assms bs ev show ?thesis
      by (auto simp: onload_def)
  next
    case True
    have "length (loaded b) \<noteq> length valid"
    proof
      assume "length (loaded b) = length valid"
      with inv have "set (loaded b) = {..<length valid}"
        by (intro full_load) simp_all
      with True inv(1) show False by simp
    qed
    with inv have q: "files s = q0"
      by simp
    from True inv q len bs ev show ?thesis
      by (simp add: onload_def batch_inv_def Let_def handleFilesAdded_def)
  qed
qed

lemma onloads_inv: "batch_inv valid q0 bs \<Longrightarrow> batch_inv valid q0 (onloads evs bs)"
  by (induction evs arbitrary: bs) (simp_all add: onload_inv)

lemma onload_loaded_mono:
  "set (loaded (fst bs)) \<subseteq> set (loaded (fst (onload ev bs))) \<and>
   validFiles (fst (onload ev bs)) = validFiles (fst bs)"
  by (cases bs; cases ev) (auto simp: onload_def Let_def)

lemma onloads_loaded_mono:
  "set (loaded (fst bs)) \<subseteq> set (loaded (fst (onloads evs bs))) \<and>
   validFiles (fst (onloads evs bs)) = validFiles (fst bs)"
proof (induction evs arbitrary: bs)
  case Nil
  then show ?case by simp
next
  case (Cons ev evs)
  from Cons.IH [of "onload ev bs"] onload_loaded_mono [of bs ev] show ?case
    by auto
qed

lemma onload_loads:
  "index < length (validFiles (fst bs)) \<Longrightarrow>
     index \<in> set (loaded (fst (onload (index, now, result) bs)))"
  by (cases bs) (auto simp: onload_def Let_def)

lemma onloads_loads:
  assumes "index \<in> fst ` set evs" and "index < length (validFiles (fst bs))"
  shows "index \<in> set (loaded (fst (onloads evs bs)))"
  using assms
proof (induction evs arbitrary: bs)
  case Nil
  then show ?case by simp
next
  case (Cons ev evs)
  obtain i now result where ev: "ev = (i, now, result)"
    by (cases ev)
  have v: "validFiles (fst (onload ev bs)) = validFiles (fst bs)"
    using onload_loaded_mono [of bs ev] by simp
  show ?case
  proof (cases "i = index")
    case True
    with Cons.prems ev have "index \<in> set (loaded (fst (onload ev bs)))"
      by (simp add: onload_loads)
    with onloads_loaded_mono [of "onload ev bs" evs] show ?thesis
      by auto
  next
    case False
    with Cons.prems ev have "index \<in> fst ` set evs"
      by auto
    with Cons.IH [of "onload ev bs"] Cons.prems v show ?thesis
      by simp
  qed
qed

lemma onload_toasts:
  "\<exists>shown. toasts (snd (onload ev bs)) = toasts (snd bs) @ shown \<and>
     (\<forall>t \<in> set shown. \<not> is_error_toast t)"
  by (cases bs; cases ev) (auto simp: onload_def Let_def handleFilesAdded_def)

lemma onloads_toasts:
  "\<exists>shown. toasts (snd (onloads evs bs)) = toasts (snd bs) @ shown \<and>
     (\<forall>t \<in> set shown. \<not> is_error_toast t)"
proof (induction evs arbitrary: bs)
  case Nil
  then show ?case by simp
next
  case (Cons ev evs)
  obtain d1 where d1: "toasts (snd (onload ev bs)) = toasts (snd bs) @ d1"
    "\<forall>t \<in> set d1. \<not> is_error_toast t"
    using onload_toasts by blast
  obtain d2 where d2: "toasts (snd (onloads evs (onload ev bs))) = toasts (snd (onload ev bs)) @ d2"
    "\<forall>t \<in> set d2. \<not> is_error_toast t"
    using Cons.IH by blast
  from d1 d2 have "toasts (snd (onloads (ev # evs) bs)) = toasts (snd bs) @ (d1 @ d2)"
    "\<forall>t \<in> set (d1 @ d2). \<not> is_error_toast t"
    by auto
  then show ?case by blast
qed

lemma onDrop_queue:
  "\<exists>recs. files (onDrop acc evs s) = files s @ recs \<and>
     set (map uf_file recs) \<subseteq> set (filter (\<lambda>f. fst (check_file f)) acc) \<and>
     (\<forall>r \<in> set recs. status r = Pending \<and> extractedText r = None) \<and>
     ((\<forall>i < length (filter (\<lambda>f. fst (check_file f)) acc). i \<in> fst ` set evs) \<longrightarrow>
        mset (map uf_file recs) = mset (filter (\<lambda>f. fst (check_file f)) acc))"
proof (cases "filter (\<lambda>f. fst (check_file f)) acc = []")
  case True
  then have "files (onDrop acc evs s) = files s @ []"
    by (simp add: onDrop_def onDrop_begin_def)
  with True show ?thesis
    by (metis (no_types, lifting) empty_iff empty_subsetI list.map(1) list.set(1))
next
  case False
  let ?valid = "filter (\<lambda>f. fst (check_file f)) acc"
  let ?n = "length ?valid"
  let ?b0 = "\<lparr>validFiles = ?valid, uploadedFiles = [], loaded = []\<rparr>"
  let ?s1 = "s\<lparr>toasts := toasts s @ concat (map (\<lambda>f. snd (check_file f)) acc),
               uploadProgress := 0\<rparr>"
  obtain b s' where fin: "onloads evs (?b0, ?s1) = (b, s')"
    by (cases "onloads evs (?b0, ?s1)")
  from False have run: "onDrop acc evs s = s'"
    using fin by (simp add: onDrop_def onDrop_begin_def Let_def)
  have "batch_inv ?valid (files s) (?b0, ?s1)"
    using False by (simp add: batch_inv_def)
  then have "batch_inv ?valid (files s) (b, s')"
    using onloads_inv [of ?valid "files s" "(?b0, ?s1)" evs] fin by simp
  then have inv: "distinct (loaded b)" "set (loaded b) \<subseteq> {..<?n}"
    "map uf_file (uploadedFiles b) = map ((!) ?valid) (loaded b)"
    "\<forall>r \<in> set (uploadedFiles b). status r = Pending \<and> extractedText r = None"
    "files s' = (if length (loaded b) = ?n then files s @ uploadedFiles b else files s)"
    by (simp_all add: batch_inv_def)
  have sub: "set (map uf_file (uploadedFiles b)) \<subseteq> set ?valid"
  proof
    fix f
    assume "f \<in> set (map uf_file (uploadedFiles b))"
    then obtain i where "i \<in> set (loaded b)" "f = ?valid ! i"
      using inv(3) by auto
    with inv(2) show "f \<in> set ?valid"
      by (metis lessThan_iff nth_mem subsetD)
  qed
  have full: "length (loaded b) = ?n \<and> mset (map uf_file (uploadedFiles b)) = mset ?valid"
    if all: "\<forall>i < ?n. i \<in> fst ` set evs"
  proof -
    have "i \<in> set (loaded b)" if "i < ?n" for i
      using onloads_loads [of i evs "(?b0, ?s1)"] all that fin by simp
    with inv(2) have eq: "set (loaded b) = {..<?n}"
      by auto
    then have l: "length (loaded b) = ?n"
      using inv(1) by (metis card_lessThan distinct_card)
    have "mset (loaded b) = mset [0..<?n]"
      using eq inv(1) by (metis atLeast_upt distinct_upt set_eq_iff_mset_eq_distinct)
    then have "mset (map ((!) ?valid) (loaded b)) = mset (map ((!) ?valid) [0..<?n])"
      by (metis mset_map)
    with l inv(3) show ?thesis
      by (simp add: map_nth)
  qed
  show ?thesis
  proof (cases "length (loaded b) = ?n")
    case True
    with inv run full sub have "files (onDrop acc evs s) = files s @ uploadedFiles b"
      by simp
    with inv(4) sub full show ?thesis
      by blast
  next
    case False
    with inv run have "files (onDrop acc evs s) = files s @ []"
      by simp
    moreover have "\<not> (\<forall>i < ?n. i \<in> fst ` set evs)"
      using False full by blast
    ultimately show ?thesis
      by (metis (no_types, lifting) empty_iff empty_subsetI list.map(1) list.set(1))
  qed
qed

lemma onDrop_toasts:
  "\<exists>shown. toasts (onDrop acc evs s) =
       toasts s @ concat (map (\<lambda>f. snd (check_file f)) acc) @ shown \<and>
     (\<forall>t \<in> set shown. \<not> is_error_toast t)"
proof (cases "filter (\<lambda>f. fst (check_file f)) acc = []")
  case True
  then have "toasts (onDrop acc evs s) =
      toasts s @ concat (map (\<lambda>f. snd (check_file f)) acc) @ []"
    by (simp add: onDrop_def onDrop_begin_def)
  then show ?thesis
    by (metis empty_iff list.set(1))
next
  case False
  let ?valid = "filter (\<lambda>f. fst (check_file f)) acc"
  let ?b0 = "\<lparr>validFiles = ?valid, uploadedFiles = [], loaded = []\<rparr>"
  let ?s1 = "s\<lparr>toasts := toasts s @ concat (map (\<lambda>f. snd (check_file f)) acc),
               uploadProgress := 0\<rparr>"
  from False have run: "onDrop acc evs s = snd (onloads evs (?b0, ?s1))"
    by (simp add: onDrop_def onDrop_begin_def Let_def split: prod.splits)
  from onloads_toasts [of evs "(?b0, ?s1)"] run show ?thesis
    by simp
qed

lemma onloads_loaded_events:
  "set (loaded (fst (onloads evs bs))) \<subseteq> set (loaded (fst bs)) \<union> fst ` set evs"
proof (induction evs arbitrary: bs)
  case Nil
  then show ?case by simp
next
  case (Cons ev evs)
  have "set (loaded (fst (onload ev bs))) \<subseteq> set (loaded (fst bs)) \<union> {fst ev}"
    by (cases bs; cases ev) (auto simp: onload_def Let_def)
  with Cons.IH [of "onload ev bs"] show ?case
    by auto
qed

lemma onDrop_gate:
  assumes "\<not> (\<forall>i < length (filter (\<lambda>f. fst (check_file f)) acc). i \<in> fst ` set evs)"
  shows "files (onDrop acc evs s) = files s"
proof -
  let ?valid = "filter (\<lambda>f. fst (check_file f)) acc"
  let ?n = "length ?valid"
  let ?b0 = "\<lparr>validFiles = ?valid, uploadedFiles = [], loaded = []\<rparr>"
  let ?s1 = "s\<lparr>toasts := toasts s @ concat (map (\<lambda>f. snd (check_file f)) acc),
               uploadProgress := 0\<rparr>"
  from assms have ne: "?valid \<noteq> []"
    by auto
  obtain b s' where fin: "onloads evs (?b0, ?s1) = (b, s')"
    by (cases "onloads evs (?b0, ?s1)")
  from ne have run: "onDrop acc evs s = s'"
    using fin by (simp add: onDrop_def onDrop_begin_def Let_def)
  have "batch_inv ?valid (files s) (?b0, ?s1)"
    using ne by (simp add: batch_inv_def)
  then have "batch_inv ?valid (files s) (b, s')"
    using onloads_inv [of ?valid "files s" "(?b0, ?s1)" evs] fin by simp
  then have inv: "distinct (loaded b)" "set (loaded b) \<subseteq> {..<?n}"
    "files s' = (if length (loaded b) = ?n then files s @ uploadedFiles b else files s)"
    by (simp_all add: batch_inv_def)
  have ev: "set (loaded b) \<subseteq> fst ` set evs"
    using onloads_loaded_events [of evs "(?b0, ?s1)"] fin by simp
  have "length (loaded b) \<noteq> ?n"
  proof
    assume "length (loaded b) = ?n"
    with inv have "set (loaded b) = {..<?n}"
      by (intro full_load) simp_all
    with ev have "\<forall>i < ?n. i \<in> fst ` set evs"
      by auto
    with assms show False by simp
  qed
  with inv run show ?thesis
    by simp
qed

text \<open>
  C8 fails on the code: every accepted file is to reach the queue, but a batch reaches it
  only from the \<open>onload\<close> of its last reader, and no reader has an \<open>onerror\<close>. Of two
  accepted files, let the first be read and the read of the second fail: nothing is added
  to the queue, not even the file that was read, and no toast is shown.
\<close>

theorem C8_read_failure_drops_batch:
  "fst (check_file img1) \<and> fst (check_file img2) \<and>
   files (onDrop [img1, img2] [(0, 1700000000000, ''data:image/png;base64,AAAA'')] state_empty) = [] \<and>
   toasts (onDrop [img1, img2] [(0, 1700000000000, ''data:image/png;base64,AAAA'')] state_empty) = []"
  by (simp add: onDrop_def onDrop_begin_def check_file_def img1_def img2_def onload_def
      state_empty_def Let_def)

text \<open>
  What \<open>onDrop\<close> does on every batch: a file is kept iff its media type starts with
  \<open>image/\<close> and its size is at most 10 MiB; each rejected file gives exactly one error
  toast, and these are the only error toasts of the batch; kept plus rejected files are
  all the input files; the records added to the queue are pending, without text, and only
  for kept files; when the read of every kept file completes, the queue grows by exactly
  one record per kept file, and otherwise it does not grow at all.
\<close>

lemma intake_batch:
  "(\<forall>f. fst (check_file f) \<longleftrightarrow>
        prefix ''image/'' (file_type f) \<and> file_size f \<le> 10 * 1024 * 1024) \<and>
   (\<forall>f. length (snd (check_file f)) = (if fst (check_file f) then 0 else 1)) \<and>
   length (filter (\<lambda>f. fst (check_file f)) acc) +
     length (filter (\<lambda>f. \<not> fst (check_file f)) acc) = length acc \<and>
   (\<exists>shown. toasts (onDrop acc evs s) =
        toasts s @ concat (map (\<lambda>f. snd (check_file f)) acc) @ shown \<and>
      (\<forall>t \<in> set shown. \<not> is_error_toast t)) \<and>
   length (concat (map (\<lambda>f. snd (check_file f)) acc)) =
     length (filter (\<lambda>f. \<not> fst (check_file f)) acc) \<and>
   (\<exists>recs. files (onDrop acc evs s) = files s @ recs \<and>
      set (map uf_file recs) \<subseteq> set (filter (\<lambda>f. fst (check_file f)) acc) \<and>
      (\<forall>r \<in> set recs. status r = Pending \<and> extractedText r = None) \<and>
      ((\<forall>i < length (filter (\<lambda>f. fst (check_file f)) acc). i \<in> fst ` set evs) \<longrightarrow>
         mset (map uf_file recs) = mset (filter (\<lambda>f. fst (check_file f)) acc))) \<and>
   (\<not> (\<forall>i < length (filter (\<lambda>f. fst (check_file f)) acc). i \<in> fst ` set evs) \<longrightarrow>
      files (onDrop acc evs s) = files s)"
proof -
  have "length (snd (check_file f)) = (if fst (check_file f) then 0 else 1)" for f
    by (simp add: check_file_def)
  moreover have "length (filter (\<lambda>f. fst (check_file f)) acc) +
     length (filter (\<lambda>f. \<not> fst (check_file f)) acc) = length acc"
    by (rule sum_length_filter_compl)
  ultimately show ?thesis
    using check_file_accepts onDrop_toasts [of acc evs s] diagnostics_count [of acc]
      onDrop_queue [of acc evs s] onDrop_gate [of acc evs s]
    by blast
qed

lemma intake_batch_example:
  "mset (map uf_file (files (onDrop [img1, notes_pdf, img2, huge_png]
      [(1, 1700000000000, ''data:image/jpeg;base64,BBBB''),
       (0, 1700000000003, ''data:image/png;base64,AAAA'')] state_empty))) = mset [img1, img2] \<and>
   length (concat (map (\<lambda>f. snd (check_file f)) [img1, notes_pdf, img2, huge_png])) = 2"
proof -
  let ?acc = "[img1, notes_pdf, img2, huge_png]"
  let ?evs = "[(1::nat, 1700000000000::nat, ''data:image/jpeg;base64,BBBB''),
       (0, 1700000000003, ''data:image/png;base64,AAAA'')]"
  have v: "filter (\<lambda>f. fst (check_file f)) ?acc = [img1, img2]"
    by (simp add: check_file_def img1_def img2_def notes_pdf_def huge_png_def)
  have r: "filter (\<lambda>f. \<not> fst (check_file f)) ?acc = [notes_pdf, huge_png]"
    by (simp add: check_file_def img1_def img2_def notes_pdf_def huge_png_def)
  have h: "\<forall>i < length (filter (\<lambda>f. fst (check_file f)) ?acc). i \<in> fst ` set ?evs"
    unfolding v by (auto simp: less_Suc_eq numeral_2_eq_2)
  have e: "files state_empty = []"
    by (simp add: state_empty_def)
  note t = intake_batch [of ?acc ?evs state_empty]
  note t5 = t [THEN conjunct2, THEN conjunct2, THEN conjunct2, THEN conjunct2, THEN conjunct1]
  note t6 = t [THEN conjunct2, THEN conjunct2, THEN conjunct2, THEN conjunct2, THEN conjunct2,
      THEN conjunct1]
  from t6 obtain recs where recs: "files (onDrop ?acc ?evs state_empty) = files state_empty @ recs"
    "(\<forall>i < length (filter (\<lambda>f. fst (check_file f)) ?acc). i \<in> fst ` set ?evs) \<longrightarrow>
       mset (map uf_file recs) = mset (filter (\<lambda>f. fst (check_file f)) ?acc)"
    by blast
  from recs(2) h have "mset (map uf_file recs) = mset (filter (\<lambda>f. fst (check_file f)) ?acc)"
    by blast
  then have "mset (map uf_file recs) = mset [img1, img2]"
    by (simp only: v)
  moreover have "files (onDrop ?acc ?evs state_empty) = recs"
    using recs(1) by (simp only: e append_Nil)
  ultimately have m: "mset (map uf_file (files (onDrop ?acc ?evs state_empty))) = mset [img1, img2]"
    by (simp only:)
  have "length (concat (map (\<lambda>f. snd (check_file f)) ?acc)) =
      length (filter (\<lambda>f. \<not> fst (check_file f)) ?acc)"
    by (rule t5)
  also have "\<dots> = length [notes_pdf, huge_png]"
    by (simp only: r)
  also have "\<dots> = 2"
    by simp
  finally have d: "length (concat (map (\<lambda>f. snd (check_file f)) ?acc)) = 2" .
  from m d show ?thesis
    by (intro conjI)
qed

text \<open>
  C7 fails on the code: the id is \<open>Date.now()\<close>, a dash and the index inside the batch.
  Two batches of one file each, whose readers fire within the same millisecond, give two
  queue records with the same id.
\<close>

theorem C7_ids_collide_across_batches:
  "map uf_id (files
     (onDrop [img2] [(0, 1700000000000, ''data:image/jpeg;base64,BBBB'')]
       (onDrop [img1] [(0, 1700000000000, ''data:image/png;base64,AAAA'')] state_empty))) =
     [''1700000000000-0'', ''1700000000000-0''] \<and>
   map uf_file (files
     (onDrop [img2] [(0, 1700000000000, ''data:image/jpeg;base64,BBBB'')]
       (onDrop [img1] [(0, 1700000000000, ''data:image/png;base64,AAAA'')] state_empty))) =
     [img1, img2]"
  by (simp add: onDrop_def onDrop_begin_def check_file_def img1_def img2_def onload_def
      state_empty_def Let_def handleFilesAdded_def string_of_nat.simps digit_char_def)

end
